theory Spec2Isabelle
  imports Main "HOL-Library.Word"
begin

section \<open>Data model of \<open>vec.h\<close>\<close>

text \<open>
  \<open>vec.h\<close> keeps two \<open>size_t\<close> header words (size, capacity) in front of the
  element storage and hands the address of element 0 to the user. A vector variable is
  either \<open>NULL\<close> or such an address.

  \<^item> \<open>size_t\<close> is a 64-bit word: \<open>+\<close>, \<open>-\<close> and \<open>*\<close> wrap around as in C.
  \<^item> A block is the header together with its element slots. A slot holds \<open>Some x\<close>
    once the user has stored \<open>x\<close> in it and \<open>None\<close> while its content is indeterminate
    (fresh from the allocator).
  \<^item> The user's variable \<open>v\<close> is \<open>None\<close> for \<open>NULL\<close> and \<open>Some b\<close> otherwise.
  \<^item> The only effect besides updating \<open>v\<close> is the call of \<open>VEC_REALLOC\<close>; the
    number of such calls is counted in \<open>reallocs\<close>, so that "no reallocation happens"
    can be stated. \<open>v\<close> is assigned in \<open>vec_realloc\<close> only, hence the address in
    \<open>v\<close> can change only when this counter does.
  \<^item> Byte sizes (\<open>sizeof\<close>, \<open>vec_memsize\<close>) are not part of the model: the allocator
    is asked for a number of slots.
\<close>

type_synonym size_t = "64 word"

record 'a block =
  len :: size_t
  cap :: size_t
  data :: "'a option list"

record 'a world =
  vec :: "'a block option"
  reallocs :: nat

text \<open>
  The build-time configuration: \<open>VEC_GROW_RATE\<close> (1 is exact fit, anything else is
  doubling; the header's default is 2) and the behaviour of \<open>VEC_REALLOC\<close>.
  \<open>realloc_ok cfg c\<close> says that the call
  \<open>VEC_REALLOC(oldptr, vec_memsize(v, c))\<close> returns a non-null block with room for the
  header and \<open>c\<close> element slots; where it is false the call returns \<open>NULL\<close>.
\<close>

record config =
  VEC_GROW_RATE :: nat
  realloc_ok :: "size_t \<Rightarrow> bool"

text \<open>
  How a macro can end other than by falling through:
  \<open>AssertFailed\<close> is \<open>VEC_ASSERT(newptr)\<close> on a null \<open>newptr\<close>;
  \<open>Undefined\<close> is a memory access outside the block (or through \<open>NULL\<close>), which C leaves
  undefined; \<open>Diverges\<close> is the doubling loop of \<open>vec_new_cap\<close> never ending.
\<close>

datatype error = AssertFailed | Undefined | Diverges

definition ebind :: "error + 'a \<Rightarrow> ('a \<Rightarrow> error + 'b) \<Rightarrow> error + 'b" where
  "ebind m f = (case m of Inl e \<Rightarrow> Inl e | Inr a \<Rightarrow> f a)"

section \<open>Header access\<close>

text \<open>The element slots behind \<open>v\<close>; \<open>NULL\<close> has none.\<close>

definition slots :: "'a block option \<Rightarrow> 'a option list" where
  "slots v = (case v of None \<Rightarrow> [] | Some b \<Rightarrow> data b)"

text \<open>\<open>#define vec_len(v) ((v) ? ((size_t*)(v))[-2] : (size_t)0)\<close>\<close>

definition vec_len :: "'a block option \<Rightarrow> size_t" where
  "vec_len v = (case v of None \<Rightarrow> 0 | Some b \<Rightarrow> len b)"

text \<open>\<open>#define vec_cap(v) ((v) ? ((size_t*)(v))[-1] : (size_t)0)\<close>\<close>

definition vec_cap :: "'a block option \<Rightarrow> size_t" where
  "vec_cap v = (case v of None \<Rightarrow> 0 | Some b \<Rightarrow> cap b)"

text \<open>\<open>vec_set_cap\<close> and \<open>vec_set_len\<close> do not null-check \<open>v\<close>: on \<open>NULL\<close> they write
  through an invalid address.\<close>

definition vec_set_cap :: "'a world \<Rightarrow> size_t \<Rightarrow> error + 'a world" where
  "vec_set_cap w c =
     (case vec w of
        None \<Rightarrow> Inl Undefined
      | Some b \<Rightarrow> Inr (w\<lparr>vec := Some (b\<lparr>cap := c\<rparr>)\<rparr>))"

definition vec_set_len :: "'a world \<Rightarrow> size_t \<Rightarrow> error + 'a world" where
  "vec_set_len w l =
     (case vec w of
        None \<Rightarrow> Inl Undefined
      | Some b \<Rightarrow> Inr (w\<lparr>vec := Some (b\<lparr>len := l\<rparr>)\<rparr>))"

text \<open>The assignment \<open>(v)[i] = (x)\<close>; slot \<open>i\<close> must lie inside the block.\<close>

definition vec_store :: "'a world \<Rightarrow> size_t \<Rightarrow> 'a \<Rightarrow> error + 'a world" where
  "vec_store w i x =
     (case vec w of
        None \<Rightarrow> Inl Undefined
      | Some b \<Rightarrow>
          if unat i < length (data b)
          then Inr (w\<lparr>vec := Some (b\<lparr>data := (data b)[unat i := Some x]\<rparr>)\<rparr>)
          else Inl Undefined)"

text \<open>
  \<open>memmove(v + dst, v + src, sizeof(*v) * n)\<close> in units of slots: the \<open>n\<close> slots from
  \<open>src\<close> are copied to \<open>dst\<close> as if through a temporary. Both ranges must lie inside
  the block.
\<close>

definition memmove :: "'a world \<Rightarrow> nat \<Rightarrow> nat \<Rightarrow> nat \<Rightarrow> error + 'a world" where
  "memmove w dst src n =
     (case vec w of
        None \<Rightarrow> Inl Undefined
      | Some b \<Rightarrow>
          if dst + n \<le> length (data b) \<and> src + n \<le> length (data b)
          then Inr (w\<lparr>vec := Some (b\<lparr>data :=
                 take dst (data b) @ take n (drop src (data b)) @ drop (dst + n) (data b)\<rparr>)\<rparr>)
          else Inl Undefined)"

section \<open>Internal implementation\<close>

text \<open>
  What \<open>realloc\<close> does to the slots: the content is kept up to the smaller of the old
  and the new size, new slots are indeterminate. A null origin has no old content.
\<close>

definition resize :: "nat \<Rightarrow> 'a option list \<Rightarrow> 'a option list" where
  "resize n xs = take n xs @ replicate (n - length xs) None"

text \<open>
  \<^verbatim>\<open>
  #define vec_realloc(v, cap, len)
    do{
      size_t vcap=(cap), vlen=(len);
      size_t *oldptr = (v) ? &((size_t*)(v))[-2] : 0;
      size_t *newptr = VEC_REALLOC(oldptr, vec_memsize((v), vcap));
      VEC_ASSERT(newptr);
      (v) = (void*)(&newptr[2]);
      vec_set_len((v), vlen);
      vec_set_cap((v), vcap);
    }while(0)
  \<close>
\<close>

definition vec_realloc :: "config \<Rightarrow> 'a world \<Rightarrow> size_t \<Rightarrow> size_t \<Rightarrow> error + 'a world" where
  "vec_realloc cfg w vcap vlen =
     (let oldslots = slots (vec w) in
      if \<not> realloc_ok cfg vcap then Inl AssertFailed
      else
        let w1 = \<lparr>vec = Some \<lparr>len = vec_len (vec w), cap = vec_cap (vec w),
                                data = resize (unat vcap) oldslots\<rparr>,
                  reallocs = reallocs w + 1\<rparr>
        in ebind (vec_set_len w1 vlen) (\<lambda>w2. vec_set_cap w2 vcap))"

text \<open>
  \<^verbatim>\<open>
  #if VEC_GROW_RATE == 1
  # define vec_new_cap(out, cur, req)  *(out) = (req);
  #else
  # define vec_new_cap(out, cur, req)
      for ((*(out)=(cur ? cur : 1)) ; *(out) < req ; *(out) *= 2) {}
  #endif
  \<close>
  The doubling is on \<open>size_t\<close> and wraps; once \<open>*out\<close> has wrapped to 0 the loop
  never ends, which is the value \<open>None\<close>.
\<close>

partial_function (option) vec_new_cap_loop :: "size_t \<Rightarrow> size_t \<Rightarrow> size_t option" where
  "vec_new_cap_loop out req =
     (if out < req then vec_new_cap_loop (out * 2) req else Some out)"

declare vec_new_cap_loop.simps [code]

definition vec_new_cap :: "config \<Rightarrow> size_t \<Rightarrow> size_t \<Rightarrow> size_t option" where
  "vec_new_cap cfg cur req =
     (if VEC_GROW_RATE cfg = 1 then Some req
      else vec_new_cap_loop (if cur \<noteq> 0 then cur else 1) req)"

text \<open>
  \<^verbatim>\<open>
  #define vec_grow(v, cap)
    do{
      const size_t reqcap = (cap);
      size_t newcap = reqcap;
      if (v) {
        const size_t curcap = vec_cap(v);
        if (curcap < reqcap) { vec_new_cap(&newcap, curcap, reqcap); }
      }
      vec_realloc((v), newcap, vec_len(v));
    }while(0)
  \<close>
\<close>

definition vec_grow :: "config \<Rightarrow> 'a world \<Rightarrow> size_t \<Rightarrow> error + 'a world" where
  "vec_grow cfg w reqcap =
     (case (if vec w \<noteq> None \<and> vec_cap (vec w) < reqcap
            then vec_new_cap cfg (vec_cap (vec w)) reqcap
            else Some reqcap) of
        None \<Rightarrow> Inl Diverges
      | Some newcap \<Rightarrow> vec_realloc cfg w newcap (vec_len (vec w)))"

section \<open>Public API\<close>

text \<open>\<open>#define vec_init(v, cap) do{ vec_grow((v), (cap)); }while(0)\<close>\<close>

definition vec_init :: "config \<Rightarrow> 'a world \<Rightarrow> size_t \<Rightarrow> error + 'a world" where
  "vec_init cfg w c = vec_grow cfg w c"

text \<open>
  \<^verbatim>\<open>
  #define vec_push(v, x)
    do{
      size_t Vcap = vec_cap(v);
      size_t Vlen = vec_len(v);
      if ((Vcap == 0) || (Vcap <= Vlen)) { vec_grow((v), Vcap+1); }
      (v)[Vlen] = (x);
      vec_set_len((v), Vlen+1);
    }while(0)
  \<close>
\<close>

definition vec_push :: "config \<Rightarrow> 'a world \<Rightarrow> 'a \<Rightarrow> error + 'a world" where
  "vec_push cfg w x =
     (let Vcap = vec_cap (vec w); Vlen = vec_len (vec w) in
      ebind (if Vcap = 0 \<or> Vcap \<le> Vlen then vec_grow cfg w (Vcap + 1) else Inr w)
        (\<lambda>w1. ebind (vec_store w1 Vlen x)
        (\<lambda>w2. vec_set_len w2 (Vlen + 1))))"

text \<open>\<open>#define vec_pop(v) do{ vec_set_len((v), vec_len(v) - 1); }while(0)\<close>\<close>

definition vec_pop :: "'a world \<Rightarrow> error + 'a world" where
  "vec_pop w = vec_set_len w (vec_len (vec w) - 1)"

text \<open>
  \<^verbatim>\<open>
  #define vec_ins(v, i, x)
    do{
      size_t Vidx = (i);
      size_t Vlen = vec_len(v);
      size_t Vvsz = sizeof(*(v));
      vec_grow((v), Vlen+1);
      memmove((v)+Vidx+1, (v)+Vidx, (Vvsz * (Vlen - Vidx)));
      vec_set_len((v), Vlen+1);
      (v)[Vidx] = (x);
    }while(0)
  \<close>
  \<open>(v)+Vidx+1\<close> is pointer arithmetic, so the destination slot is \<open>unat Vidx + 1\<close>;
  \<open>Vlen - Vidx\<close> is \<open>size_t\<close> arithmetic and wraps.
\<close>

definition vec_ins :: "config \<Rightarrow> 'a world \<Rightarrow> size_t \<Rightarrow> 'a \<Rightarrow> error + 'a world" where
  "vec_ins cfg w i x =
     (let Vidx = i; Vlen = vec_len (vec w) in
      ebind (vec_grow cfg w (Vlen + 1))
        (\<lambda>w1. ebind (memmove w1 (unat Vidx + 1) (unat Vidx) (unat (Vlen - Vidx)))
        (\<lambda>w2. ebind (vec_set_len w2 (Vlen + 1))
        (\<lambda>w3. vec_store w3 Vidx x))))"

text \<open>
  \<^verbatim>\<open>
  #define vec_del(v, i)
    do{
      if (v) {
        const size_t Vidx = (i);
        const size_t Vlen = vec_len(v);
        const size_t Vvsz = sizeof(*(v));
        if (Vidx < Vlen) {
          vec_set_len((v), Vlen - 1);
          memmove((v)+Vidx, (v)+Vidx+1, (Vvsz * (Vlen - Vidx - 1)));
        }
      }
    }while(0)
  \<close>
\<close>

definition vec_del :: "'a world \<Rightarrow> size_t \<Rightarrow> error + 'a world" where
  "vec_del w i =
     (if vec w \<noteq> None then
        let Vidx = i; Vlen = vec_len (vec w) in
        if Vidx < Vlen then
          ebind (vec_set_len w (Vlen - 1))
            (\<lambda>w1. memmove w1 (unat Vidx) (unat Vidx + 1) (unat (Vlen - Vidx - 1)))
        else Inr w
      else Inr w)"

text \<open>
  \<^verbatim>\<open>
  #define vec_trim(v)
    do{
      if (v) {
        size_t Vlen = vec_len(v);
        if (vec_cap(v) > Vlen) { vec_realloc((v), Vlen, Vlen); }
      }
    }while(0)
  \<close>
\<close>

definition vec_trim :: "config \<Rightarrow> 'a world \<Rightarrow> error + 'a world" where
  "vec_trim cfg w =
     (if vec w \<noteq> None then
        let Vlen = vec_len (vec w) in
        if vec_cap (vec w) > Vlen then vec_realloc cfg w Vlen Vlen else Inr w
      else Inr w)"

text \<open>\<open>#define vec_clear(v) do{ if (v) { vec_set_len(v, 0); } }while(0)\<close>\<close>

definition vec_clear :: "'a world \<Rightarrow> error + 'a world" where
  "vec_clear w = (if vec w \<noteq> None then vec_set_len w 0 else Inr w)"

section \<open>Client programs\<close>

text \<open>The public operations as data, and one call of each on the variable \<open>v\<close>.\<close>

datatype 'a op = Init size_t | Push 'a | Pop | Ins size_t 'a | Del size_t | Trim | Clear

fun step :: "config \<Rightarrow> 'a world \<Rightarrow> 'a op \<Rightarrow> error + 'a world" where
  "step cfg w (Init c) = vec_init cfg w c"
| "step cfg w (Push x) = vec_push cfg w x"
| "step cfg w Pop = vec_pop w"
| "step cfg w (Ins i x) = vec_ins cfg w i x"
| "step cfg w (Del i) = vec_del w i"
| "step cfg w Trim = vec_trim cfg w"
| "step cfg w Clear = vec_clear w"

text \<open>
  \<open>run P cfg w ops\<close> performs \<open>ops\<close> from left to right. It is \<open>Some w'\<close> when
  every operation was permitted by \<open>P\<close> in the state it was applied to and returned
  normally, and \<open>None\<close> otherwise.
\<close>

fun run :: "('a world \<Rightarrow> 'a op \<Rightarrow> bool) \<Rightarrow> config \<Rightarrow> 'a world \<Rightarrow> 'a op list \<Rightarrow> 'a world option" where
  "run P cfg w [] = Some w"
| "run P cfg w (a # as) =
     (if P w a
      then (case step cfg w a of Inl e \<Rightarrow> None | Inr w' \<Rightarrow> run P cfg w' as)
      else None)"

text \<open>
  The caller's obligations as the specification lists them: \<open>pop\<close> on a non-empty
  buffer, \<open>insert_at\<close> with an index up to the length, everything else unrestricted.
\<close>

fun permitted :: "'a world \<Rightarrow> 'a op \<Rightarrow> bool" where
  "permitted w Pop = (vec_len (vec w) \<noteq> 0)"
| "permitted w (Ins i x) = (i \<le> vec_len (vec w))"
| "permitted w a = True"

text \<open>The same, with \<open>init\<close> asking for at least the current length.\<close>

fun permitted_init :: "'a world \<Rightarrow> 'a op \<Rightarrow> bool" where
  "permitted_init w (Init c) = (vec_len (vec w) \<le> c)"
| "permitted_init w a = permitted w a"

text \<open>A run of \<open>vec_push\<close> calls.\<close>

fun push_all :: "config \<Rightarrow> 'a world \<Rightarrow> 'a list \<Rightarrow> error + 'a world" where
  "push_all cfg w [] = Inr w"
| "push_all cfg w (x # xs) = ebind (vec_push cfg w x) (\<lambda>w'. push_all cfg w' xs)"

section \<open>Vocabulary of the properties\<close>

text \<open>The live elements: the first \<open>vec_len v\<close> slots.\<close>

definition elems :: "'a block option \<Rightarrow> 'a option list" where
  "elems v = take (unat (vec_len v)) (slots v)"

text \<open>
  A well-formed buffer: the length does not exceed the capacity, and the block has as
  many slots as its capacity word says.
\<close>

definition vec_inv :: "'a block option \<Rightarrow> bool" where
  "vec_inv v = (vec_len v \<le> vec_cap v \<and> length (slots v) = unat (vec_cap v))"

text \<open>The unallocated state, and the configuration \<open>vec.h\<close> has by default with an
  allocator that grants every request.\<close>

definition null :: "'a world" where
  "null = \<lparr>vec = None, reallocs = 0\<rparr>"

definition default_config :: config where
  "default_config = \<lparr>VEC_GROW_RATE = 2, realloc_ok = (\<lambda>c. True)\<rparr>"

section \<open>Basic facts about the primitives\<close>

lemma ebind_Inr: "ebind (Inr a) f = f a" and ebind_Inl: "ebind (Inl e) f = Inl e"
  by (simp_all add: ebind_def)

lemma ebind_eq_Inr: "ebind m f = Inr b \<longleftrightarrow> (\<exists>a. m = Inr a \<and> f a = Inr b)"
  by (cases m) (simp_all add: ebind_def)

lemma loop_ge:
  assumes "vec_new_cap_loop out req = Some c" shows "req \<le> c"
  using assms
  by (rule vec_new_cap_loop.raw_induct [where P = "\<lambda>out req c. req \<le> c", rotated])
     (auto split: if_splits)

lemma unat_succ: "unat c < 2 ^ 63 \<Longrightarrow> unat (c + 1 :: size_t) = unat c + 1"
  by (simp add: unat_word_ariths)

lemma unat_dbl: "unat c < 2 ^ 63 \<Longrightarrow> unat (c * 2 :: size_t) = 2 * unat c"
  by (simp add: unat_word_ariths)

lemma loop_double:
  assumes "c \<noteq> 0" and "unat c < 2 ^ 63"
  shows "vec_new_cap_loop c (c + 1) = Some (c * 2)"
proof -
  have "unat c \<noteq> 0" using assms(1) by (simp add: unat_eq_0)
  have a: "c < c + 1" using assms by (simp add: word_less_nat_alt unat_succ)
  have b: "\<not> c * 2 < c + 1" using assms \<open>unat c \<noteq> 0\<close> by (simp add: word_less_nat_alt unat_succ unat_dbl)
  show ?thesis
    by (subst vec_new_cap_loop.simps, simp only: a if_True)
       (subst vec_new_cap_loop.simps, simp only: b if_False)
qed

lemma loop_one: "vec_new_cap_loop 1 1 = Some 1"
  by (subst vec_new_cap_loop.simps) simp

lemma length_resize: "length (resize n xs) = n"
  by (simp add: resize_def)

lemma take_resize: "k \<le> n \<Longrightarrow> k \<le> length xs \<Longrightarrow> take k (resize n xs) = take k xs"
  by (simp add: resize_def min_def)

lemma vec_realloc_ok:
  "realloc_ok cfg c \<Longrightarrow>
   vec_realloc cfg w c l =
     Inr \<lparr>vec = Some \<lparr>len = l, cap = c, data = resize (unat c) (slots (vec w))\<rparr>,
          reallocs = reallocs w + 1\<rparr>"
  by (simp add: vec_realloc_def vec_set_len_def vec_set_cap_def ebind_Inr)

lemma vec_realloc_Inr:
  "vec_realloc cfg w c l = Inr w' \<Longrightarrow>
   realloc_ok cfg c \<and>
   w' = \<lparr>vec = Some \<lparr>len = l, cap = c, data = resize (unat c) (slots (vec w))\<rparr>,
          reallocs = reallocs w + 1\<rparr>"
  by (cases "realloc_ok cfg c") (simp_all add: vec_realloc_ok, simp add: vec_realloc_def)

lemma vec_new_cap_ge: "vec_new_cap cfg cur req = Some c \<Longrightarrow> req \<le> c"
  by (auto simp: vec_new_cap_def dest: loop_ge split: if_splits)

lemma vec_grow_Inr:
  assumes "vec_grow cfg w r = Inr w'"
  shows "\<exists>c. r \<le> c \<and> realloc_ok cfg c \<and>
           w' = \<lparr>vec = Some \<lparr>len = vec_len (vec w), cap = c,
                               data = resize (unat c) (slots (vec w))\<rparr>,
                 reallocs = reallocs w + 1\<rparr>"
proof (cases "vec w \<noteq> None \<and> vec_cap (vec w) < r")
  case True
  then obtain c where c: "vec_new_cap cfg (vec_cap (vec w)) r = Some c"
    and r: "vec_realloc cfg w c (vec_len (vec w)) = Inr w'"
    using assms by (auto simp: vec_grow_def split: option.splits)
  from c have "r \<le> c" by (rule vec_new_cap_ge)
  with vec_realloc_Inr [OF r] show ?thesis by blast
next
  case False
  then have "vec_realloc cfg w r (vec_len (vec w)) = Inr w'"
    using assms by (auto simp: vec_grow_def)
  from vec_realloc_Inr [OF this] show ?thesis by blast
qed

section \<open>Well-formedness is preserved\<close>

lemma word_pred_le: "x \<noteq> 0 \<Longrightarrow> x - 1 \<le> (x :: size_t)"
  by (simp add: word_le_nat_alt unat_minus_one)

lemma vec_inv_None: "vec_inv None"
  by (simp add: vec_inv_def vec_len_def vec_cap_def slots_def)

lemma vec_inv_Some:
  "vec_inv (Some b) \<longleftrightarrow> len b \<le> cap b \<and> length (data b) = unat (cap b)"
  by (simp add: vec_inv_def vec_len_def vec_cap_def slots_def)

lemma vec_store_Inr:
  "vec_store w i x = Inr w' \<Longrightarrow>
   \<exists>b. vec w = Some b \<and> unat i < length (data b) \<and>
       w' = w\<lparr>vec := Some (b\<lparr>data := (data b)[unat i := Some x]\<rparr>)\<rparr>"
  by (auto simp: vec_store_def split: option.splits if_splits)

lemma vec_set_len_Inr:
  "vec_set_len w l = Inr w' \<Longrightarrow> \<exists>b. vec w = Some b \<and> w' = w\<lparr>vec := Some (b\<lparr>len := l\<rparr>)\<rparr>"
  by (auto simp: vec_set_len_def split: option.splits)

lemma memmove_Inr:
  "memmove w dst src n = Inr w' \<Longrightarrow>
   \<exists>b. vec w = Some b \<and> dst + n \<le> length (data b) \<and> src + n \<le> length (data b) \<and>
       w' = w\<lparr>vec := Some (b\<lparr>data :=
              take dst (data b) @ take n (drop src (data b)) @ drop (dst + n) (data b)\<rparr>)\<rparr>"
  by (auto simp: memmove_def split: option.splits if_splits)

lemma vec_push_inv:
  assumes "vec_inv (vec w)" and "vec_push cfg w x = Inr w'"
  shows "vec_inv (vec w')"
proof (cases "vec_cap (vec w) = 0 \<or> vec_cap (vec w) \<le> vec_len (vec w)")
  case True
  with assms(2) obtain w1 w2 where
    g: "vec_grow cfg w (vec_cap (vec w) + 1) = Inr w1" and
    s: "vec_store w1 (vec_len (vec w)) x = Inr w2" and
    l: "vec_set_len w2 (vec_len (vec w) + 1) = Inr w'"
    by (auto simp: vec_push_def Let_def ebind_eq_Inr)
  from vec_grow_Inr [OF g] obtain c where
    w1: "w1 = \<lparr>vec = Some \<lparr>len = vec_len (vec w), cap = c,
                               data = resize (unat c) (slots (vec w))\<rparr>,
                 reallocs = reallocs w + 1\<rparr>" by blast
  from vec_store_Inr [OF s] w1 have lt: "unat (vec_len (vec w)) < unat c"
    and w2: "vec w2 = Some \<lparr>len = vec_len (vec w), cap = c,
               data = (resize (unat c) (slots (vec w)))[unat (vec_len (vec w)) := Some x]\<rparr>"
    by (auto simp: length_resize)
  from lt have "vec_len (vec w) + 1 \<le> c"
    by (simp add: inc_le word_less_nat_alt)
  with vec_set_len_Inr [OF l] w2 show ?thesis
    by (auto simp: vec_inv_Some length_resize)
next
  case False
  with assms(2) obtain w2 where
    s: "vec_store w (vec_len (vec w)) x = Inr w2" and
    l: "vec_set_len w2 (vec_len (vec w) + 1) = Inr w'"
    by (auto simp: vec_push_def Let_def ebind_eq_Inr)
  from vec_store_Inr [OF s] obtain b where b: "vec w = Some b"
    and w2: "w2 = w\<lparr>vec := Some (b\<lparr>data := (data b)[unat (vec_len (vec w)) := Some x]\<rparr>)\<rparr>"
    by blast
  from False b have "len b < cap b" by (auto simp: vec_len_def vec_cap_def not_le)
  then have "len b + 1 \<le> cap b" by (rule inc_le)
  with vec_set_len_Inr [OF l] w2 b assms(1) show ?thesis
    by (auto simp: vec_inv_Some vec_len_def)
qed

lemma vec_pop_inv:
  assumes "vec_inv (vec w)" and "vec_len (vec w) \<noteq> 0" and "vec_pop w = Inr w'"
  shows "vec_inv (vec w')"
proof -
  from vec_set_len_Inr [OF assms(3) [unfolded vec_pop_def]] obtain b where
    b: "vec w = Some b" and w': "w' = w\<lparr>vec := Some (b\<lparr>len := vec_len (vec w) - 1\<rparr>)\<rparr>"
    by blast
  have "len b - 1 \<le> len b" using assms(2) b
    by (simp add: vec_len_def word_pred_le)
  with assms(1) b w' show ?thesis
    by (auto simp: vec_inv_Some vec_len_def)
qed

lemma vec_grow_inv:
  assumes "vec_grow cfg w r = Inr w'" and "vec_len (vec w) \<le> r"
  shows "vec_inv (vec w')"
proof -
  from vec_grow_Inr [OF assms(1)] obtain c where "r \<le> c" and
    "w' = \<lparr>vec = Some \<lparr>len = vec_len (vec w), cap = c,
                               data = resize (unat c) (slots (vec w))\<rparr>,
                 reallocs = reallocs w + 1\<rparr>" by blast
  with assms(2) show ?thesis by (auto simp: vec_inv_Some length_resize)
qed

lemma vec_ins_inv:
  assumes "vec_ins cfg w i x = Inr w'"
  shows "vec_inv (vec w')"
proof -
  from assms obtain w1 w2 w3 where
    g: "vec_grow cfg w (vec_len (vec w) + 1) = Inr w1" and
    m: "memmove w1 (unat i + 1) (unat i) (unat (vec_len (vec w) - i)) = Inr w2" and
    l: "vec_set_len w2 (vec_len (vec w) + 1) = Inr w3" and
    s: "vec_store w3 i x = Inr w'"
    by (auto simp: vec_ins_def Let_def ebind_eq_Inr)
  from vec_grow_Inr [OF g] obtain c where c: "vec_len (vec w) + 1 \<le> c" and
    w1: "w1 = \<lparr>vec = Some \<lparr>len = vec_len (vec w), cap = c,
                               data = resize (unat c) (slots (vec w))\<rparr>,
                 reallocs = reallocs w + 1\<rparr>" by blast
  from memmove_Inr [OF m] w1 obtain d where
    w2: "w2 = \<lparr>vec = Some \<lparr>len = vec_len (vec w), cap = c, data = d\<rparr>,
                 reallocs = reallocs w + 1\<rparr>" and d: "length d = unat c"
    by (auto simp: length_resize)
  from vec_set_len_Inr [OF l] w2 have
    w3: "w3 = \<lparr>vec = Some \<lparr>len = vec_len (vec w) + 1, cap = c, data = d\<rparr>,
                 reallocs = reallocs w + 1\<rparr>" by auto
  from vec_store_Inr [OF s] w3 c d show ?thesis
    by (auto simp: vec_inv_Some)
qed

lemma vec_del_inv:
  assumes "vec_inv (vec w)" and "vec_del w i = Inr w'"
  shows "vec_inv (vec w')"
proof (cases "vec w \<noteq> None \<and> i < vec_len (vec w)")
  case True
  then obtain b where b: "vec w = Some b" and i: "i < len b"
    by (auto simp: vec_len_def)
  with assms(2) obtain w1 where
    l: "vec_set_len w (len b - 1) = Inr w1" and
    m: "memmove w1 (unat i) (unat i + 1) (unat (len b - i - 1)) = Inr w'"
    by (auto simp: vec_del_def Let_def ebind_eq_Inr vec_len_def)
  from i have "len b \<noteq> 0" by auto
  then have "len b - 1 \<le> len b" by (rule word_pred_le)
  with vec_set_len_Inr [OF l] memmove_Inr [OF m] b assms(1) show ?thesis
    by (auto simp: vec_inv_Some)
next
  case False
  with assms show ?thesis by (auto simp: vec_del_def Let_def split: if_splits)
qed

lemma vec_trim_inv:
  assumes "vec_inv (vec w)" and "vec_trim cfg w = Inr w'"
  shows "vec_inv (vec w')"
proof (cases "vec w \<noteq> None \<and> vec_len (vec w) < vec_cap (vec w)")
  case True
  with assms(2) have "vec_realloc cfg w (vec_len (vec w)) (vec_len (vec w)) = Inr w'"
    by (auto simp: vec_trim_def Let_def)
  from vec_realloc_Inr [OF this] show ?thesis
    by (auto simp: vec_inv_Some length_resize)
next
  case False
  with assms show ?thesis by (auto simp: vec_trim_def Let_def split: if_splits)
qed

lemma vec_clear_inv:
  assumes "vec_inv (vec w)" and "vec_clear w = Inr w'"
  shows "vec_inv (vec w')"
proof (cases "vec w")
  case None
  with assms show ?thesis by (simp add: vec_clear_def)
next
  case (Some b)
  with assms(2) have "vec_set_len w 0 = Inr w'" by (simp add: vec_clear_def)
  from vec_set_len_Inr [OF this] Some assms(1) show ?thesis
    by (auto simp: vec_inv_Some)
qed

lemma step_inv:
  assumes "vec_inv (vec w)" and "permitted_init w a" and "step cfg w a = Inr w'"
  shows "vec_inv (vec w')"
proof (cases a)
  case (Init c)
  with assms show ?thesis by (auto simp: vec_init_def intro: vec_grow_inv)
next
  case (Push x)
  with assms show ?thesis by (auto intro: vec_push_inv)
next
  case Pop
  with assms show ?thesis by (auto intro: vec_pop_inv)
next
  case (Ins i x)
  with assms show ?thesis by (auto intro: vec_ins_inv)
next
  case (Del i)
  with assms show ?thesis by (auto intro: vec_del_inv)
next
  case Trim
  with assms show ?thesis by (auto intro: vec_trim_inv)
next
  case Clear
  with assms show ?thesis by (auto intro: vec_clear_inv)
qed

lemma run_inv:
  "vec_inv (vec w) \<Longrightarrow> run permitted_init cfg w ops = Some w' \<Longrightarrow> vec_inv (vec w')"
proof (induction ops arbitrary: w)
  case Nil
  then show ?case by simp
next
  case (Cons a ops)
  then show ?case
    by (auto split: if_splits sum.splits dest: step_inv)
qed

section \<open>What each operation returns\<close>

lemma take_Suc_update:
  "n < length ys \<Longrightarrow> take (Suc n) (ys[n := v]) = take n ys @ [v]"
  by (simp add: take_Suc_conv_app_nth)

lemma vec_new_cap_next:
  assumes "unat cur < 2 ^ 63"
  shows "\<exists>c. vec_new_cap cfg cur (cur + 1) = Some c \<and> unat c \<le> 2 * unat cur + 1"
proof (cases "VEC_GROW_RATE cfg = 1")
  case True
  with assms show ?thesis by (simp add: vec_new_cap_def unat_succ)
next
  case False
  show ?thesis
  proof (cases "cur = 0")
    case True
    with False show ?thesis by (simp add: vec_new_cap_def loop_one)
  next
    case nz: False
    with False assms show ?thesis
      by (simp add: vec_new_cap_def loop_double unat_dbl)
  qed
qed

lemma vec_grow_next:
  assumes small: "unat (vec_cap (vec w)) < 2 ^ 63"
      and r: "unat r \<le> unat (vec_cap (vec w)) + 1"
      and ok: "\<And>c. unat c \<le> 2 * unat (vec_cap (vec w)) + 1 \<Longrightarrow> realloc_ok cfg c"
  shows "\<exists>w'. vec_grow cfg w r = Inr w'"
proof (cases "vec w \<noteq> None \<and> vec_cap (vec w) < r")
  case True
  then have "unat r = unat (vec_cap (vec w) + 1)"
    using r small by (simp add: word_less_nat_alt unat_succ)
  then have req: "r = vec_cap (vec w) + 1" by (simp add: word_unat_eq_iff)
  from vec_new_cap_next [OF small] obtain c where
    c: "vec_new_cap cfg (vec_cap (vec w)) (vec_cap (vec w) + 1) = Some c"
    and "unat c \<le> 2 * unat (vec_cap (vec w)) + 1" by blast
  then have "realloc_ok cfg c" by (simp add: ok)
  with True c req show ?thesis by (simp add: vec_grow_def vec_realloc_ok)
next
  case False
  have "realloc_ok cfg r" using r by (intro ok) simp
  with False show ?thesis by (auto simp: vec_grow_def vec_realloc_ok)
qed

text \<open>With a capacity that already suffices, \<open>vec_grow\<close> still reallocates, to the
  request itself.\<close>

lemma vec_grow_when_enough:
  assumes "vec w = Some b" and "\<not> cap b < r" and "realloc_ok cfg r"
  shows "vec_grow cfg w r =
           Inr \<lparr>vec = Some \<lparr>len = len b, cap = r, data = resize (unat r) (data b)\<rparr>,
                reallocs = reallocs w + 1\<rparr>"
  using assms
  by (simp add: vec_grow_def vec_cap_def vec_len_def vec_realloc_ok slots_def)

lemma elems_Some: "elems (Some b) = take (unat (len b)) (data b)"
  by (simp add: elems_def vec_len_def slots_def)

lemma push_result:
  assumes inv: "vec_inv (vec w)"
      and small: "unat (vec_cap (vec w)) < 2 ^ 63"
      and ok: "\<And>c. unat c \<le> 2 * unat (vec_cap (vec w)) + 1 \<Longrightarrow> realloc_ok cfg c"
  shows "\<exists>w'. vec_push cfg w x = Inr w'
           \<and> vec_len (vec w') = vec_len (vec w) + 1
           \<and> unat (vec_len (vec w')) = unat (vec_len (vec w)) + 1
           \<and> elems (vec w') = elems (vec w) @ [Some x]
           \<and> reallocs w' =
               (if vec_cap (vec w) = 0 \<or> vec_cap (vec w) \<le> vec_len (vec w)
                then reallocs w + 1 else reallocs w)"
proof -
  let ?l = "vec_len (vec w)" and ?c = "vec_cap (vec w)"
  from inv have le: "unat ?l \<le> unat ?c" and sl: "length (slots (vec w)) = unat ?c"
    by (simp_all add: vec_inv_def word_le_nat_alt)
  from le small have l1: "unat (?l + 1) = unat ?l + 1" by (simp add: unat_succ)
  show ?thesis
  proof (cases "?c = 0 \<or> ?c \<le> ?l")
    case True
    from vec_grow_next [OF small _ ok, of "?c + 1"] small obtain w1 where
      g: "vec_grow cfg w (?c + 1) = Inr w1" by (auto simp: unat_succ)
    from vec_grow_Inr [OF g] obtain c where c: "?c + 1 \<le> c" and
      w1: "w1 = \<lparr>vec = Some \<lparr>len = ?l, cap = c, data = resize (unat c) (slots (vec w))\<rparr>,
                 reallocs = reallocs w + 1\<rparr>" by blast
    from c small le have lt: "unat ?l < unat c"
      by (simp add: word_le_nat_alt unat_succ)
    have "take (Suc (unat ?l)) ((resize (unat c) (slots (vec w)))[unat ?l := Some x])
            = take (unat ?l) (slots (vec w)) @ [Some x]"
      using lt le sl by (simp add: take_Suc_update length_resize take_resize)
    with True g w1 lt l1 show ?thesis
      by (simp add: vec_push_def Let_def ebind_Inr vec_store_def vec_set_len_def
            length_resize elems_Some vec_len_def) (simp add: elems_def vec_len_def)
  next
    case False
    then have "?l < ?c" by (auto simp: not_le)
    then obtain b where b: "vec w = Some b" and lt: "unat (len b) < unat (cap b)"
      by (cases "vec w") (auto simp: vec_len_def vec_cap_def word_less_nat_alt)
    with sl have "take (Suc (unat (len b))) ((data b)[unat (len b) := Some x])
            = take (unat (len b)) (data b) @ [Some x]"
      by (simp add: take_Suc_update slots_def vec_cap_def)
    with False b lt sl l1 show ?thesis
      by (simp add: vec_push_def Let_def ebind_Inr vec_store_def vec_set_len_def
            elems_Some vec_len_def vec_cap_def slots_def)
  qed
qed

lemma unat_diff: "i \<le> l \<Longrightarrow> unat (l - i :: size_t) = unat l - unat i"
  by (simp add: unat_sub)

lemma ins_list:
  assumes "i \<le> l" and "l < length d"
  shows "take (Suc l) ((take (Suc i) d @ take (l - i) (drop i d) @ drop (Suc l) d)[i := v])
         = take i (take l d) @ [v] @ drop i (take l d)"
proof -
  have a: "(take (Suc i) d @ take (l - i) (drop i d) @ drop (Suc l) d)[i := v]
        = (take i d @ [v]) @ take (l - i) (drop i d) @ drop (Suc l) d"
    using assms by (simp add: list_update_append take_Suc_conv_app_nth)
  have b: "length ((take i d @ [v]) @ take (l - i) (drop i d)) = Suc l"
    using assms by simp
  have "take (Suc l) (((take i d @ [v]) @ take (l - i) (drop i d)) @ drop (Suc l) d)
        = (take i d @ [v]) @ take (l - i) (drop i d)"
    using b by (metis append_eq_conv_conj)
  moreover have "take (l - i) (drop i d) = drop i (take l d)"
    using assms by (simp add: drop_take)
  moreover have "take i (take l d) = take i d" using assms by (simp add: min_def)
  ultimately show ?thesis using a by simp
qed

lemma ins_result:
  assumes inv: "vec_inv (vec w)"
      and small: "unat (vec_cap (vec w)) < 2 ^ 63"
      and ok: "\<And>c. unat c \<le> 2 * unat (vec_cap (vec w)) + 1 \<Longrightarrow> realloc_ok cfg c"
      and i: "i \<le> vec_len (vec w)"
  shows "\<exists>w'. vec_ins cfg w i x = Inr w'
           \<and> vec_len (vec w') = vec_len (vec w) + 1
           \<and> unat (vec_len (vec w')) = unat (vec_len (vec w)) + 1
           \<and> elems (vec w') =
               take (unat i) (elems (vec w)) @ [Some x] @ drop (unat i) (elems (vec w))
           \<and> reallocs w' = reallocs w + 1"
proof -
  let ?l = "vec_len (vec w)" and ?c = "vec_cap (vec w)"
  from inv have le: "unat ?l \<le> unat ?c" and sl: "length (slots (vec w)) = unat ?c"
    by (simp_all add: vec_inv_def word_le_nat_alt)
  from le small have l1: "unat (?l + 1) = unat ?l + 1" by (simp add: unat_succ)
  from i have il: "unat i \<le> unat ?l" by (simp add: word_le_nat_alt)
  from i have n: "unat (?l - i) = unat ?l - unat i" by (rule unat_diff)
  from vec_grow_next [OF small _ ok, of "?l + 1"] l1 le obtain w1 where
    g: "vec_grow cfg w (?l + 1) = Inr w1" by auto
  from vec_grow_Inr [OF g] obtain c where c: "?l + 1 \<le> c" and
    w1: "w1 = \<lparr>vec = Some \<lparr>len = ?l, cap = c, data = resize (unat c) (slots (vec w))\<rparr>,
               reallocs = reallocs w + 1\<rparr>" by blast
  define d where "d = resize (unat c) (slots (vec w))"
  define d1 where "d1 = take (Suc (unat i)) d @ take (unat ?l - unat i) (drop (unat i) d)
                @ drop (Suc (unat ?l)) d"
  from c l1 have lt: "unat ?l < unat c" by (simp add: word_le_nat_alt)
  have ld: "length d = unat c" by (simp add: d_def length_resize)
  have ld1: "length d1 = unat c" using ld lt il by (simp add: d1_def)
  have tk: "take (unat ?l) d = elems (vec w)"
    using lt le sl by (simp add: d_def take_resize elems_def)
  have g': "vec_grow cfg w (?l + 1) =
      Inr \<lparr>vec = Some \<lparr>len = ?l, cap = c, data = d\<rparr>, reallocs = reallocs w + 1\<rparr>"
    using g w1 by (simp add: d_def)
  have m: "memmove \<lparr>vec = Some \<lparr>len = ?l, cap = c, data = d\<rparr>, reallocs = reallocs w + 1\<rparr>
             (unat i + 1) (unat i) (unat (?l - i)) =
      Inr \<lparr>vec = Some \<lparr>len = ?l, cap = c, data = d1\<rparr>, reallocs = reallocs w + 1\<rparr>"
    using lt il n ld by (simp add: memmove_def d1_def)
  have s1: "vec_set_len \<lparr>vec = Some \<lparr>len = ?l, cap = c, data = d1\<rparr>,
                         reallocs = reallocs w + 1\<rparr> (?l + 1) =
      Inr \<lparr>vec = Some \<lparr>len = ?l + 1, cap = c, data = d1\<rparr>, reallocs = reallocs w + 1\<rparr>"
    by (simp add: vec_set_len_def)
  have s2: "vec_store \<lparr>vec = Some \<lparr>len = ?l + 1, cap = c, data = d1\<rparr>,
                       reallocs = reallocs w + 1\<rparr> i x =
      Inr \<lparr>vec = Some \<lparr>len = ?l + 1, cap = c, data = d1[unat i := Some x]\<rparr>,
           reallocs = reallocs w + 1\<rparr>"
    using ld1 lt il by (simp add: vec_store_def)
  have r: "vec_ins cfg w i x =
      Inr \<lparr>vec = Some \<lparr>len = ?l + 1, cap = c, data = d1[unat i := Some x]\<rparr>,
           reallocs = reallocs w + 1\<rparr>"
    unfolding vec_ins_def Let_def by (simp only: g' ebind_Inr m s1 s2)
  have "take (Suc (unat ?l)) (d1[unat i := Some x])
        = take (unat i) (take (unat ?l) d) @ [Some x] @ drop (unat i) (take (unat ?l) d)"
    unfolding d1_def using il lt ld by (intro ins_list) simp_all
  then have e: "elems (Some \<lparr>len = ?l + 1, cap = c, data = d1[unat i := Some x]\<rparr>) =
      take (unat i) (elems (vec w)) @ [Some x] @ drop (unat i) (elems (vec w))"
    by (simp add: elems_Some l1 tk)
  show ?thesis
    by (simp only: r) (simp add: e, simp add: vec_len_def l1 [unfolded vec_len_def])
qed

lemma take_length_append: "length xs = n \<Longrightarrow> take n (xs @ ys) = xs"
  by simp

lemma del_list:
  assumes "i < l" and "l \<le> length d"
  shows "take (l - 1) (take i d @ take (l - i - 1) (drop (Suc i) d) @ drop (i + (l - i - 1)) d)
         = take i (take l d) @ drop (Suc i) (take l d)"
proof -
  have "length (take i d @ take (l - i - 1) (drop (Suc i) d)) = l - 1"
    using assms by simp
  then have "take (l - 1) ((take i d @ take (l - i - 1) (drop (Suc i) d)) @ drop (i + (l - i - 1)) d)
        = take i d @ take (l - i - 1) (drop (Suc i) d)"
    by (rule take_length_append)
  then have A: "take (l - 1) (take i d @ take (l - i - 1) (drop (Suc i) d) @ drop (i + (l - i - 1)) d)
        = take i d @ take (l - i - 1) (drop (Suc i) d)"
    by (simp only: append_assoc)
  have B: "drop (Suc i) (take l d) = take (l - i - 1) (drop (Suc i) d)"
    using assms by (simp add: drop_take)
  have C: "take i (take l d) = take i d" using assms by (simp add: min_def)
  show ?thesis by (simp only: A B C)
qed

lemma del_result:
  assumes inv: "vec_inv (vec w)" and i: "i < vec_len (vec w)"
  shows "\<exists>w'. vec_del w i = Inr w'
           \<and> vec_len (vec w') = vec_len (vec w) - 1
           \<and> unat (vec_len (vec w')) + 1 = unat (vec_len (vec w))
           \<and> elems (vec w') = take (unat i) (elems (vec w)) @ drop (unat i + 1) (elems (vec w))
           \<and> vec_cap (vec w') = vec_cap (vec w)
           \<and> reallocs w' = reallocs w"
proof -
  from i obtain b where b: "vec w = Some b" and ib: "i < len b"
    by (cases "vec w") (auto simp: vec_len_def)
  from inv b have le: "unat (len b) \<le> length (data b)"
    by (simp add: vec_inv_Some word_le_nat_alt)
  from ib have il: "unat i < unat (len b)" by (simp add: word_less_nat_alt)
  from ib have nz: "len b \<noteq> 0" by auto
  then have l1: "unat (len b - 1) = unat (len b) - 1" by (rule unat_minus_one)
  from ib have di: "unat (len b - i) = unat (len b) - unat i" by (simp add: unat_diff)
  with il have "len b - i \<noteq> 0" by (auto simp: unat_eq_0 [symmetric] simp del: unat_eq_0)
  then have "unat (len b - i - 1) = unat (len b - i) - 1" by (rule unat_minus_one)
  with di have n: "unat (len b - i - 1) = unat (len b) - unat i - 1" by simp
  define d1 where "d1 = take (unat i) (data b)
      @ take (unat (len b) - unat i - 1) (drop (Suc (unat i)) (data b))
      @ drop (unat i + (unat (len b) - unat i - 1)) (data b)"
  have r: "vec_del w i = Inr (w\<lparr>vec := Some (b\<lparr>len := len b - 1, data := d1\<rparr>)\<rparr>)"
    using b ib il le n
    by (simp add: vec_del_def Let_def vec_len_def vec_set_len_def ebind_Inr memmove_def d1_def)
  have "take (unat (len b) - 1) d1
      = take (unat i) (take (unat (len b)) (data b)) @ drop (Suc (unat i)) (take (unat (len b)) (data b))"
    unfolding d1_def using il le by (rule del_list)
  then have e: "elems (Some (b\<lparr>len := len b - 1, data := d1\<rparr>))
      = take (unat i) (elems (vec w)) @ drop (unat i + 1) (elems (vec w))"
    using b by (simp add: elems_Some l1)
  show ?thesis
    using il by (simp only: r) (simp add: e, simp add: vec_len_def vec_cap_def b l1)
qed

lemma del_noop: "\<not> i < vec_len (vec w) \<Longrightarrow> vec_del w i = Inr w"
  by (simp add: vec_del_def Let_def)

lemma trim_result:
  assumes inv: "vec_inv (vec w)" and ok: "realloc_ok cfg (vec_len (vec w))"
  shows "\<exists>w'. vec_trim cfg w = Inr w'
           \<and> vec_cap (vec w') = vec_len (vec w')
           \<and> vec_len (vec w') = vec_len (vec w)
           \<and> elems (vec w') = elems (vec w)
           \<and> (vec_cap (vec w) = vec_len (vec w) \<longrightarrow> w' = w)"
proof (cases "vec w \<noteq> None \<and> vec_len (vec w) < vec_cap (vec w)")
  case True
  from inv have "unat (vec_len (vec w)) \<le> length (slots (vec w))"
    by (simp add: vec_inv_def word_le_nat_alt)
  with True ok show ?thesis
    by (auto simp: vec_trim_def Let_def vec_realloc_ok vec_len_def vec_cap_def elems_Some
          take_resize slots_def)
next
  case False
  with inv have "vec_cap (vec w) = vec_len (vec w)"
    by (cases "vec w") (auto simp: vec_inv_def vec_len_def vec_cap_def)
  with False show ?thesis by (auto simp: vec_trim_def Let_def)
qed

lemma push_room:
  assumes "vec w = Some b" and "len b < cap b" and "length (data b) = unat (cap b)"
  shows "vec_push cfg w x =
           Inr (w\<lparr>vec := Some (b\<lparr>len := len b + 1, data := (data b)[unat (len b) := Some x]\<rparr>)\<rparr>)"
proof -
  from assms(2) have "cap b \<noteq> 0" and "\<not> cap b \<le> len b" by auto
  moreover from assms(2,3) have "unat (len b) < length (data b)"
    by (simp add: word_less_nat_alt)
  ultimately show ?thesis using assms(1)
    by (simp add: vec_push_def Let_def vec_cap_def vec_len_def ebind_Inr vec_store_def
          vec_set_len_def)
qed

lemma unat_succ_less:
  assumes "l < c" shows "unat (l + 1 :: size_t) = unat l + 1"
proof -
  have "unat c < 2 ^ 64" using unsigned_less [of c] by simp
  with assms show ?thesis by (simp add: word_less_nat_alt unat_word_ariths)
qed

lemma push_all_room:
  assumes "vec w = Some b" and "length (data b) = unat (cap b)"
      and "unat (len b) + length xs \<le> unat (cap b)"
  shows "\<exists>b'. push_all cfg w xs = Inr (w\<lparr>vec := Some b'\<rparr>)
           \<and> cap b' = cap b
           \<and> unat (len b') = unat (len b) + length xs
           \<and> take (unat (len b')) (data b') = take (unat (len b)) (data b) @ map Some xs"
  using assms
proof (induction xs arbitrary: w b)
  case Nil
  then show ?case by (cases w) auto
next
  case (Cons x xs)
  let ?b1 = "b\<lparr>len := len b + 1, data := (data b)[unat (len b) := Some x]\<rparr>"
  from Cons.prems have lt: "len b < cap b" by (simp add: word_less_nat_alt)
  then have l1: "unat (len b + 1) = unat (len b) + 1" by (rule unat_succ_less)
  from lt Cons.prems have p: "vec_push cfg w x = Inr (w\<lparr>vec := Some ?b1\<rparr>)"
    by (intro push_room) simp_all
  have "\<exists>b'. push_all cfg (w\<lparr>vec := Some ?b1\<rparr>) xs = Inr (w\<lparr>vec := Some ?b1\<rparr>\<lparr>vec := Some b'\<rparr>)
           \<and> cap b' = cap ?b1
           \<and> unat (len b') = unat (len ?b1) + length xs
           \<and> take (unat (len b')) (data b') = take (unat (len ?b1)) (data ?b1) @ map Some xs"
    using Cons.prems l1 by (intro Cons.IH) simp_all
  then obtain b' where b':
    "push_all cfg (w\<lparr>vec := Some ?b1\<rparr>) xs = Inr (w\<lparr>vec := Some b'\<rparr>)"
    "cap b' = cap b" "unat (len b') = unat (len b) + 1 + length xs"
    "take (unat (len b')) (data b') = take (unat (len b) + 1) ((data b)[unat (len b) := Some x]) @ map Some xs"
    using l1 by auto
  have "take (unat (len b) + 1) ((data b)[unat (len b) := Some x])
      = take (unat (len b)) (data b) @ [Some x]"
    using Cons.prems lt by (simp add: take_Suc_update word_less_nat_alt)
  with b' p show ?case by (intro exI [of _ b']) (simp add: ebind_Inr)
qed

lemma clear_push_result:
  assumes alloc: "vec w \<noteq> None"
      and sl: "length (slots (vec w)) = unat (vec_cap (vec w))"
      and n: "length xs \<le> unat (vec_cap (vec w))"
  shows "\<exists>w1 w2. vec_clear w = Inr w1
           \<and> vec_len (vec w1) = 0
           \<and> vec_cap (vec w1) = vec_cap (vec w)
           \<and> slots (vec w1) = slots (vec w)
           \<and> reallocs w1 = reallocs w
           \<and> push_all cfg w1 xs = Inr w2
           \<and> reallocs w2 = reallocs w
           \<and> vec_cap (vec w2) = vec_cap (vec w)
           \<and> unat (vec_len (vec w2)) = length xs
           \<and> elems (vec w2) = map Some xs"
proof -
  from alloc obtain b where b: "vec w = Some b" by auto
  let ?w1 = "w\<lparr>vec := Some (b\<lparr>len := 0\<rparr>)\<rparr>"
  have c: "vec_clear w = Inr ?w1" using b by (simp add: vec_clear_def vec_set_len_def)
  have "\<exists>b'. push_all cfg ?w1 xs = Inr (?w1\<lparr>vec := Some b'\<rparr>)
           \<and> cap b' = cap (b\<lparr>len := 0\<rparr>)
           \<and> unat (len b') = unat (len (b\<lparr>len := 0\<rparr>)) + length xs
           \<and> take (unat (len b')) (data b') =
               take (unat (len (b\<lparr>len := 0\<rparr>))) (data (b\<lparr>len := 0\<rparr>)) @ map Some xs"
    using sl n b by (intro push_all_room) (simp_all add: slots_def vec_cap_def)
  then obtain b' where "push_all cfg ?w1 xs = Inr (w\<lparr>vec := Some b'\<rparr>)"
    "cap b' = cap b" "unat (len b') = length xs"
    "take (unat (len b')) (data b') = map Some xs" by auto
  with c b show ?thesis
    by (simp add: vec_len_def vec_cap_def slots_def elems_Some)
qed

lemma push_null:
  assumes "vec w = None" and "realloc_ok cfg 1"
  shows "vec_push cfg w x =
           Inr \<lparr>vec = Some \<lparr>len = 1, cap = 1, data = [Some x]\<rparr>, reallocs = reallocs w + 1\<rparr>"
  using assms
  by (simp add: vec_push_def Let_def vec_cap_def vec_len_def vec_grow_def vec_realloc_ok
        ebind_Inr vec_store_def vec_set_len_def slots_def resize_def)

lemma push_full_double:
  assumes rate: "VEC_GROW_RATE cfg \<noteq> 1"
      and b: "vec w = Some b" and full: "len b = cap b" and nz: "cap b \<noteq> 0"
      and small: "unat (cap b) < 2 ^ 63"
      and sl: "length (data b) = unat (cap b)"
      and ok: "realloc_ok cfg (cap b * 2)"
  shows "vec_push cfg w x =
           Inr \<lparr>vec = Some \<lparr>len = len b + 1, cap = cap b * 2,
                          data = (resize (unat (cap b * 2)) (data b))[unat (len b) := Some x]\<rparr>,
                reallocs = reallocs w + 1\<rparr>"
proof -
  from small have lt: "cap b < cap b + 1" by (simp add: word_less_nat_alt unat_succ)
  from nz have "unat (cap b) \<noteq> 0" by (simp add: unat_eq_0)
  with small have "unat (cap b) < unat (cap b * 2)" by (simp add: unat_dbl)
  with rate b full nz small ok lt show ?thesis
    by (simp add: vec_push_def Let_def vec_cap_def vec_len_def vec_grow_def vec_new_cap_def
          loop_double vec_realloc_ok ebind_Inr vec_store_def vec_set_len_def slots_def
          length_resize)
qed

lemma push_all_doubling:
  assumes rate: "VEC_GROW_RATE cfg \<noteq> 1"
      and "vec w = Some b" and "unat (len b) = n" and "unat (cap b) = 2 ^ k"
      and "n \<le> 2 ^ k" and "2 ^ k < 2 * n" and "length (data b) = 2 ^ k"
      and "n + length xs \<le> 2 ^ 63"
      and "\<And>c. unat c < 2 * (n + length xs) \<Longrightarrow> realloc_ok cfg c"
  shows "\<exists>w' b' j. push_all cfg w xs = Inr w' \<and> vec w' = Some b'
           \<and> unat (len b') = n + length xs
           \<and> unat (cap b') = 2 ^ (k + j)
           \<and> n + length xs \<le> 2 ^ (k + j) \<and> 2 ^ (k + j) < 2 * (n + length xs)
           \<and> reallocs w' = reallocs w + j
           \<and> take (unat (len b')) (data b') = take n (data b) @ map Some xs"
  using assms(2-)
proof (induction xs arbitrary: w b n k)
  case Nil
  then show ?case by (intro exI [of _ w] exI [of _ b] exI [of _ 0]) simp
next
  case (Cons x xs)
  note ok = Cons.prems(8)
  show ?case
  proof (cases "n < 2 ^ k")
    case True
    let ?b1 = "b\<lparr>len := len b + 1, data := (data b)[unat (len b) := Some x]\<rparr>"
    from True Cons.prems have lt: "len b < cap b" by (simp add: word_less_nat_alt)
    then have l1: "unat (len b + 1) = n + 1" using Cons.prems by (simp add: unat_succ_less)
    from lt Cons.prems have p: "vec_push cfg w x = Inr (w\<lparr>vec := Some ?b1\<rparr>)"
      by (intro push_room) simp_all
    have "\<exists>w' b' j. push_all cfg (w\<lparr>vec := Some ?b1\<rparr>) xs = Inr w' \<and> vec w' = Some b'
           \<and> unat (len b') = (n + 1) + length xs
           \<and> unat (cap b') = 2 ^ (k + j)
           \<and> (n + 1) + length xs \<le> 2 ^ (k + j) \<and> 2 ^ (k + j) < 2 * ((n + 1) + length xs)
           \<and> reallocs w' = reallocs (w\<lparr>vec := Some ?b1\<rparr>) + j
           \<and> take (unat (len b')) (data b') = take (n + 1) (data ?b1) @ map Some xs"
      using Cons.prems(1-7) True l1 ok by (intro Cons.IH) simp_all
    then obtain w' b' j where r:
      "push_all cfg (w\<lparr>vec := Some ?b1\<rparr>) xs = Inr w'" "vec w' = Some b'"
      "unat (len b') = n + length (x # xs)" "unat (cap b') = 2 ^ (k + j)"
      "n + length (x # xs) \<le> 2 ^ (k + j)" "2 ^ (k + j) < 2 * (n + length (x # xs))"
      "reallocs w' = reallocs w + j"
      "take (unat (len b')) (data b') = take (n + 1) ((data b)[unat (len b) := Some x]) @ map Some xs"
      by auto
    have "take (n + 1) ((data b)[unat (len b) := Some x]) = take n (data b) @ [Some x]"
      using Cons.prems True by (simp add: take_Suc_update)
    with r p show ?thesis
      by (intro exI [of _ w'] exI [of _ b'] exI [of _ j]) (simp add: ebind_Inr)
  next
    case False
    with Cons.prems have nk: "n = 2 ^ k" by simp
    from Cons.prems nk have full: "len b = cap b" by (simp add: word_unat_eq_iff)
    from Cons.prems nk have small: "unat (cap b) < 2 ^ 63" by simp
    from Cons.prems have nz: "cap b \<noteq> 0" by (auto simp: unat_eq_0 [symmetric] simp del: unat_eq_0)
    from small Cons.prems have c2: "unat (cap b * 2) = 2 ^ (k + 1)" by (simp add: unat_dbl)
    from small Cons.prems nk have l1: "unat (len b + 1) = n + 1" by (simp add: unat_succ)
    let ?d = "(resize (unat (cap b * 2)) (data b))[unat (len b) := Some x]"
    let ?b1 = "\<lparr>len = len b + 1, cap = cap b * 2, data = ?d\<rparr>"
    let ?w1 = "\<lparr>vec = Some ?b1, reallocs = reallocs w + 1\<rparr>"
    have "realloc_ok cfg (cap b * 2)" using c2 nk by (intro ok) simp
    with rate Cons.prems(1) full nz small Cons.prems(3,6)
    have p: "vec_push cfg w x = Inr ?w1"
      by (intro push_full_double) simp_all
    have "\<exists>w' b' j. push_all cfg ?w1 xs = Inr w' \<and> vec w' = Some b'
           \<and> unat (len b') = (n + 1) + length xs
           \<and> unat (cap b') = 2 ^ ((k + 1) + j)
           \<and> (n + 1) + length xs \<le> 2 ^ ((k + 1) + j) \<and> 2 ^ ((k + 1) + j) < 2 * ((n + 1) + length xs)
           \<and> reallocs w' = reallocs ?w1 + j
           \<and> take (unat (len b')) (data b') = take (n + 1) (data ?b1) @ map Some xs"
      using Cons.prems(7) nk l1 c2 ok by (intro Cons.IH) (simp_all add: length_resize)
    then obtain w' b' j where r:
      "push_all cfg ?w1 xs = Inr w'" "vec w' = Some b'"
      "unat (len b') = n + length (x # xs)" "unat (cap b') = 2 ^ (k + (j + 1))"
      "n + length (x # xs) \<le> 2 ^ (k + (j + 1))" "2 ^ (k + (j + 1)) < 2 * (n + length (x # xs))"
      "reallocs w' = reallocs w + (j + 1)"
      "take (unat (len b')) (data b') = take (n + 1) ?d @ map Some xs"
      by (auto simp: add.assoc add.commute)
    have "take (n + 1) ?d = take n (data b) @ [Some x]"
      using Cons.prems nk c2 by (simp add: take_Suc_update length_resize take_resize)
    with r p show ?thesis
      by (intro exI [of _ w'] exI [of _ b'] exI [of _ "j + 1"]) (simp add: ebind_Inr)
  qed
qed

lemma length_elems: "vec_inv v \<Longrightarrow> length (elems v) = unat (vec_len v)"
  by (simp add: vec_inv_def elems_def word_le_nat_alt)

lemma run_append:
  "run P cfg w (xs @ ys) =
     (case run P cfg w xs of None \<Rightarrow> None | Some w' \<Rightarrow> run P cfg w' ys)"
  by (induction xs arbitrary: w) (auto split: sum.splits)

lemma pops_result:
  assumes "vec_inv (vec w)" and "k \<le> unat (vec_len (vec w))"
  shows "\<exists>w'. run permitted cfg w (replicate k Pop) = Some w'
           \<and> vec_inv (vec w')
           \<and> unat (vec_len (vec w')) = unat (vec_len (vec w)) - k"
  using assms
proof (induction k arbitrary: w)
  case 0
  then show ?case by simp
next
  case (Suc k)
  from Suc.prems(2) have nz: "vec_len (vec w) \<noteq> 0" by auto
  then obtain b where b: "vec w = Some b" by (cases "vec w") (auto simp: vec_len_def)
  let ?w1 = "w\<lparr>vec := Some (b\<lparr>len := len b - 1\<rparr>)\<rparr>"
  have p: "vec_pop w = Inr ?w1" using b by (simp add: vec_pop_def vec_set_len_def vec_len_def)
  from vec_pop_inv [OF Suc.prems(1) nz p] have inv1: "vec_inv (vec ?w1)" .
  from nz b have l1: "unat (vec_len (vec ?w1)) = unat (vec_len (vec w)) - 1"
    by (simp add: vec_len_def unat_minus_one)
  with Suc.prems(2) have "k \<le> unat (vec_len (vec ?w1))" by simp
  from Suc.IH [OF inv1 this] l1 nz p show ?case by simp
qed

section \<open>The properties of the specification\<close>

subsection \<open>C1: growth when the capacity already suffices\<close>

text \<open>
  C1. The specification says that \<open>vec_grow\<close> is a no-op when the capacity is at least
  the request, and that \<open>vec_ins\<close> then leaves the capacity alone. \<open>vec_grow\<close> guards
  only the choice of \<open>newcap\<close> with \<open>curcap < reqcap\<close>; the call of \<open>vec_realloc\<close>
  is outside the guard. On a buffer of length 1 and capacity 4 (as left by
  \<open>vec_init(v, 4); vec_push(v, 7)\<close>), \<open>vec_grow(v, 2)\<close> calls the allocator and cuts the
  capacity to 2, and so does \<open>vec_ins(v, 0, 9)\<close>.
\<close>

theorem vec_grow_reallocs_when_capacity_suffices:
  "run permitted default_config null [Init 4, Push (7::nat)]
   = Some \<lparr>vec = Some \<lparr>len = 1, cap = 4, data = [Some 7, None, None, None]\<rparr>, reallocs = 1\<rparr>
   \<and> vec_grow default_config
     \<lparr>vec = Some \<lparr>len = 1, cap = 4, data = [Some (7::nat), None, None, None]\<rparr>, reallocs = 1\<rparr> 2
   = Inr \<lparr>vec = Some \<lparr>len = 1, cap = 2, data = [Some 7, None]\<rparr>, reallocs = 2\<rparr>
   \<and> vec_ins default_config
     \<lparr>vec = Some \<lparr>len = 1, cap = 4, data = [Some (7::nat), None, None, None]\<rparr>, reallocs = 1\<rparr> 0 9
   = Inr \<lparr>vec = Some \<lparr>len = 2, cap = 2, data = [Some 9, Some 7]\<rparr>, reallocs = 2\<rparr>"
  by code_simp

subsection \<open>C2: the invariant of reachable buffers\<close>

text \<open>
  C2, as amended. Start from \<open>NULL\<close> and perform any sequence of \<open>init\<close> (asking for
  at least the current length), \<open>push\<close>, \<open>pop\<close> on a non-empty buffer, \<open>insert_at\<close>
  with an index up to the length, \<open>remove_at\<close>, \<open>trim\<close> and \<open>clear\<close>, each of
  which returns normally. Then the length does not exceed the capacity, and a null
  handle has capacity 0. The converse is not claimed: an allocated buffer may have
  capacity 0.
\<close>

theorem reachable_len_le_cap:
  assumes "run permitted_init cfg null ops = Some w"
  shows "vec_len (vec w) \<le> vec_cap (vec w) \<and> (vec w = None \<longrightarrow> vec_cap (vec w) = 0)"
proof -
  have "vec_inv (vec (null :: 'a world))" by (simp add: null_def vec_inv_None)
  from run_inv [OF this assms] show ?thesis
    by (auto simp: vec_inv_def vec_cap_def)
qed

text \<open>
  The scenario of the specification: push 1, 2, 3; insert 9 at index 1; remove index 0;
  pop; trim. It ends with the elements 9, 2 and capacity 2. The empty run ends in
  \<open>NULL\<close>, with capacity 0.
\<close>

theorem reachable_len_le_cap_witness:
  "run permitted_init default_config null
     [Push (1::nat), Push 2, Push 3, Ins 1 9, Del 0, Pop, Trim] =
     Some \<lparr>vec = Some \<lparr>len = 2, cap = 2, data = [Some 9, Some 2]\<rparr>, reallocs = 5\<rparr>
   \<and> vec_len (Some \<lparr>len = 2, cap = 2, data = [Some (9::nat), Some 2]\<rparr>)
       \<le> vec_cap (Some \<lparr>len = 2, cap = 2, data = [Some (9::nat), Some 2]\<rparr>)
   \<and> run permitted_init default_config (null :: nat world) [] = Some null
   \<and> vec (null :: nat world) = None
   \<and> vec_cap (vec (null :: nat world)) = 0"
proof -
  have r: "run permitted_init default_config null
     [Push (1::nat), Push 2, Push 3, Ins 1 9, Del 0, Pop, Trim] =
     Some \<lparr>vec = Some \<lparr>len = 2, cap = 2, data = [Some 9, Some 2]\<rparr>, reallocs = 5\<rparr>"
    by code_simp
  have e: "run permitted_init default_config (null :: nat world) [] = Some null" by simp
  have n: "vec (null :: nat world) = None" by (simp add: null_def)
  from reachable_len_le_cap [OF r] reachable_len_le_cap [OF e] r e n show ?thesis by simp
qed

text \<open>
  C2 as the specification states it fails in both parts. After \<open>push 1; pop; trim\<close> the
  buffer is allocated and has capacity 0; after \<open>push 1; push 2; init 1\<close> the length 2
  exceeds the capacity 1.
\<close>

theorem reachable_inv_counterexample:
  "run permitted default_config null [Push (1::nat), Pop, Trim] =
     Some \<lparr>vec = Some \<lparr>len = 0, cap = 0, data = []\<rparr>, reallocs = 2\<rparr>
   \<and> vec_cap (Some \<lparr>len = 0, cap = 0, data = [] :: nat option list\<rparr>) = 0
   \<and> Some \<lparr>len = 0, cap = 0, data = [] :: nat option list\<rparr> \<noteq> None
   \<and> run permitted default_config null [Push (1::nat), Push 2, Init 1] =
     Some \<lparr>vec = Some \<lparr>len = 2, cap = 1, data = [Some 1]\<rparr>, reallocs = 3\<rparr>
   \<and> \<not> vec_len (Some \<lparr>len = 2, cap = 1, data = [Some (1::nat)]\<rparr>)
         \<le> vec_cap (Some \<lparr>len = 2, cap = 1, data = [Some (1::nat)]\<rparr>)"
  by code_simp

subsection \<open>C3: growing from the unallocated state\<close>

text \<open>
  C3, as amended. On the null handle \<open>vec_grow\<close> skips \<open>vec_new_cap\<close>: whatever the
  growth rate, it calls the allocator once with a null origin (so every slot of the new
  block is fresh) and, when the allocator grants the request \<open>r\<close>, leaves a buffer of
  length 0 whose capacity is exactly \<open>r\<close>. \<open>vec_init\<close> is \<open>vec_grow\<close>.
\<close>

theorem vec_grow_null_exact:
  assumes "vec w = None" and "realloc_ok cfg r"
  shows "vec_grow cfg w r =
           Inr \<lparr>vec = Some \<lparr>len = 0, cap = r, data = replicate (unat r) None\<rparr>,
                reallocs = reallocs w + 1\<rparr>
         \<and> vec_init cfg w r = vec_grow cfg w r"
  using assms
  by (simp add: vec_init_def vec_grow_def vec_realloc_ok vec_len_def slots_def resize_def)

theorem vec_grow_null_exact_witness:
  "vec_grow default_config (null :: nat world) 3 =
     Inr \<lparr>vec = Some \<lparr>len = 0, cap = 3, data = replicate (unat (3 :: size_t)) None\<rparr>,
          reallocs = reallocs (null :: nat world) + 1\<rparr>
   \<and> vec_init default_config (null :: nat world) 3 = vec_grow default_config null 3"
proof -
  have a: "vec (null :: nat world) = None" by (simp add: null_def)
  have b: "realloc_ok default_config 3" by (simp add: default_config_def)
  from vec_grow_null_exact [OF a b] show ?thesis .
qed

text \<open>
  C3 as the specification states it expects capacity 4, the next power of two, from
  \<open>vec_init(NULL, 3)\<close> under the default doubling rate. The capacity is 3.
\<close>

theorem vec_init_null_counterexample:
  "vec_init default_config (null :: nat world) 3
   = Inr \<lparr>vec = Some \<lparr>len = 0, cap = 3, data = [None, None, None]\<rparr>, reallocs = 1\<rparr>
   \<and> vec_cap (Some \<lparr>len = 0, cap = 3, data = [None, None, None :: nat option]\<rparr>) \<noteq> 4"
  by code_simp

subsection \<open>C4: push\<close>

text \<open>
  C4. Let the buffer be well formed (possibly \<open>NULL\<close>), its capacity below \<open>2^63\<close>, and
  let the allocator grant every request of up to twice the capacity plus one slots. Then
  \<open>vec_push\<close> returns normally; the length grows by one; the live elements are the old
  ones, unchanged and in order, followed by \<open>x\<close> at index old length; and the allocator
  is called (once) exactly when the old capacity is 0 or does not exceed the old length.
\<close>

theorem vec_push_appends:
  assumes "vec_inv (vec w)"
      and "unat (vec_cap (vec w)) < 2 ^ 63"
      and "\<And>c. unat c \<le> 2 * unat (vec_cap (vec w)) + 1 \<Longrightarrow> realloc_ok cfg c"
  shows "\<exists>w'. vec_push cfg w x = Inr w'
           \<and> unat (vec_len (vec w')) = unat (vec_len (vec w)) + 1
           \<and> length (elems (vec w)) = unat (vec_len (vec w))
           \<and> elems (vec w') = elems (vec w) @ [Some x]
           \<and> reallocs w' =
               (if vec_cap (vec w) = 0 \<or> vec_cap (vec w) \<le> vec_len (vec w)
                then reallocs w + 1 else reallocs w)"
  using push_result [OF assms, of x] length_elems [OF assms(1)] by auto

theorem vec_push_appends_witness:
  "\<exists>w'. vec_push default_config
            \<lparr>vec = Some \<lparr>len = 2, cap = 2, data = [Some (1::nat), Some 2]\<rparr>, reallocs = 2\<rparr> 3 = Inr w'
      \<and> unat (vec_len (vec w')) =
          unat (vec_len (vec \<lparr>vec = Some \<lparr>len = 2, cap = 2, data = [Some (1::nat), Some 2]\<rparr>, reallocs = 2\<rparr>)) + 1
      \<and> length (elems (vec \<lparr>vec = Some \<lparr>len = 2, cap = 2, data = [Some (1::nat), Some 2]\<rparr>, reallocs = 2\<rparr>))
          = unat (vec_len (vec \<lparr>vec = Some \<lparr>len = 2, cap = 2, data = [Some (1::nat), Some 2]\<rparr>, reallocs = 2\<rparr>))
      \<and> elems (vec w') =
          elems (vec \<lparr>vec = Some \<lparr>len = 2, cap = 2, data = [Some (1::nat), Some 2]\<rparr>, reallocs = 2\<rparr>) @ [Some 3]
      \<and> reallocs w' = 3"
proof -
  let ?w = "\<lparr>vec = Some \<lparr>len = 2, cap = 2, data = [Some (1::nat), Some 2]\<rparr>, reallocs = 2\<rparr>"
  have a: "vec_inv (vec ?w)" by (simp add: vec_inv_def vec_len_def vec_cap_def slots_def)
  have b: "unat (vec_cap (vec ?w)) < 2 ^ 63" by (simp add: vec_cap_def)
  have c: "\<And>c. unat c \<le> 2 * unat (vec_cap (vec ?w)) + 1 \<Longrightarrow> realloc_ok default_config c"
    by (simp add: default_config_def)
  from vec_push_appends [OF a b c, of 3] show ?thesis
    by (simp add: vec_cap_def vec_len_def)
qed

subsection \<open>C5: insert\<close>

text \<open>
  C5. Let the buffer be allocated and well formed, its capacity below \<open>2^63\<close>, the
  allocator as for C4, and \<open>i\<close> at most the length. Then \<open>vec_ins\<close> returns normally;
  the length grows by one; element \<open>i\<close> is \<open>x\<close>; the elements below \<open>i\<close> are unchanged and
  those formerly at \<open>i\<close> and above follow \<open>x\<close> in their old order.
\<close>

theorem vec_ins_inserts:
  assumes "vec w \<noteq> None"
      and "vec_inv (vec w)"
      and "unat (vec_cap (vec w)) < 2 ^ 63"
      and "\<And>c. unat c \<le> 2 * unat (vec_cap (vec w)) + 1 \<Longrightarrow> realloc_ok cfg c"
      and "i \<le> vec_len (vec w)"
  shows "\<exists>w'. vec_ins cfg w i x = Inr w'
           \<and> unat (vec_len (vec w')) = unat (vec_len (vec w)) + 1
           \<and> length (elems (vec w)) = unat (vec_len (vec w))
           \<and> elems (vec w') ! unat i = Some x
           \<and> elems (vec w') =
               take (unat i) (elems (vec w)) @ [Some x] @ drop (unat i) (elems (vec w))"
proof -
  from assms(2) have l: "length (elems (vec w)) = unat (vec_len (vec w))"
    by (rule length_elems)
  from assms(5) have "unat i \<le> unat (vec_len (vec w))" by (simp add: word_le_nat_alt)
  with l have "(take (unat i) (elems (vec w)) @ [Some x] @ drop (unat i) (elems (vec w))) ! unat i
      = Some x"
    by (simp add: nth_append)
  with ins_result [OF assms(2-5), of x] l show ?thesis by auto
qed

theorem vec_ins_inserts_witness:
  "\<exists>w'. vec_ins default_config
            \<lparr>vec = Some \<lparr>len = 3, cap = 4, data = [Some (1::nat), Some 2, Some 3, None]\<rparr>,
             reallocs = 3\<rparr> 1 9 = Inr w'
      \<and> unat (vec_len (vec w')) = 4
      \<and> elems (vec w') ! unat (1 :: size_t) = Some 9
      \<and> elems (vec w') = [Some 1, Some 9, Some 2, Some 3]"
proof -
  let ?w = "\<lparr>vec = Some \<lparr>len = 3, cap = 4, data = [Some (1::nat), Some 2, Some 3, None]\<rparr>,
             reallocs = 3\<rparr>"
  have a: "vec ?w \<noteq> None" by simp
  have b: "vec_inv (vec ?w)" by (simp add: vec_inv_def vec_len_def vec_cap_def slots_def)
  have c: "unat (vec_cap (vec ?w)) < 2 ^ 63" by (simp add: vec_cap_def)
  have d: "\<And>c. unat c \<le> 2 * unat (vec_cap (vec ?w)) + 1 \<Longrightarrow> realloc_ok default_config c"
    by (simp add: default_config_def)
  have e: "1 \<le> vec_len (vec ?w)" by (simp add: vec_len_def)
  from vec_ins_inserts [OF a b c d e, of 9] show ?thesis
    by (simp add: vec_len_def elems_def slots_def)
qed

subsection \<open>C6: remove\<close>

text \<open>
  C6. On a well-formed buffer and an index below the length, \<open>vec_del\<close> returns normally;
  the length shrinks by one; the elements below \<open>i\<close> are unchanged and those above \<open>i\<close>
  move down by one; capacity and allocation are untouched. With an index at or beyond
  the length (on \<open>NULL\<close> every index is) nothing changes at all.
\<close>

theorem vec_del_removes:
  "(vec_inv (vec w) \<and> i < vec_len (vec w) \<longrightarrow>
      (\<exists>w'. vec_del w i = Inr w'
         \<and> unat (vec_len (vec w')) + 1 = unat (vec_len (vec w))
         \<and> elems (vec w') = take (unat i) (elems (vec w)) @ drop (unat i + 1) (elems (vec w))
         \<and> vec_cap (vec w') = vec_cap (vec w)
         \<and> reallocs w' = reallocs w))
   \<and> (vec_len (vec w) \<le> i \<longrightarrow> vec_del w i = Inr w)"
proof (intro conjI impI)
  assume "vec_inv (vec w) \<and> i < vec_len (vec w)"
  then have "vec_inv (vec w)" and "i < vec_len (vec w)" by simp_all
  from del_result [OF this] show "\<exists>w'. vec_del w i = Inr w'
         \<and> unat (vec_len (vec w')) + 1 = unat (vec_len (vec w))
         \<and> elems (vec w') = take (unat i) (elems (vec w)) @ drop (unat i + 1) (elems (vec w))
         \<and> vec_cap (vec w') = vec_cap (vec w)
         \<and> reallocs w' = reallocs w" by blast
next
  assume "vec_len (vec w) \<le> i"
  then have "\<not> i < vec_len (vec w)" by simp
  then show "vec_del w i = Inr w" by (rule del_noop)
qed

theorem vec_del_removes_witness:
  "(\<exists>w'. vec_del \<lparr>vec = Some \<lparr>len = 4, cap = 4, data = [Some (1::nat), Some 9, Some 2, Some 3]\<rparr>,
                   reallocs = 4\<rparr> 0 = Inr w'
      \<and> unat (vec_len (vec w')) + 1 = 4
      \<and> elems (vec w') = [Some 9, Some 2, Some 3]
      \<and> vec_cap (vec w') = 4
      \<and> reallocs w' = 4)
   \<and> vec_del \<lparr>vec = Some \<lparr>len = 4, cap = 4, data = [Some (1::nat), Some 9, Some 2, Some 3]\<rparr>,
               reallocs = 4\<rparr> 4
      = Inr \<lparr>vec = Some \<lparr>len = 4, cap = 4, data = [Some (1::nat), Some 9, Some 2, Some 3]\<rparr>,
             reallocs = 4\<rparr>
   \<and> vec_del (null :: nat world) 0 = Inr null"
proof -
  let ?w = "\<lparr>vec = Some \<lparr>len = 4, cap = 4, data = [Some (1::nat), Some 9, Some 2, Some 3]\<rparr>,
             reallocs = 4\<rparr>"
  have a: "vec_inv (vec ?w) \<and> 0 < vec_len (vec ?w)"
    by (simp add: vec_inv_def vec_len_def vec_cap_def slots_def)
  have b: "vec_len (vec ?w) \<le> 4" by (simp add: vec_len_def)
  have c: "vec_len (vec (null :: nat world)) \<le> 0" by (simp add: vec_len_def null_def)
  from vec_del_removes [of ?w 0] a have
    "\<exists>w'. vec_del ?w 0 = Inr w'
         \<and> unat (vec_len (vec w')) + 1 = unat (vec_len (vec ?w))
         \<and> elems (vec w') = take (unat (0 :: size_t)) (elems (vec ?w)) @ drop (unat (0 :: size_t) + 1) (elems (vec ?w))
         \<and> vec_cap (vec w') = vec_cap (vec ?w)
         \<and> reallocs w' = reallocs ?w" by blast
  moreover from vec_del_removes [of ?w 4] b have "vec_del ?w 4 = Inr ?w" by blast
  moreover from vec_del_removes [of "null :: nat world" 0] c
  have "vec_del (null :: nat world) 0 = Inr null" by blast
  ultimately show ?thesis
    by (simp add: vec_len_def vec_cap_def elems_def slots_def)
qed

subsection \<open>C7: trim\<close>

text \<open>
  C7. Let the buffer be well formed and let the allocator grant every request of up to
  the current length. Then \<open>vec_trim\<close> returns normally with the capacity equal to the
  length, the length and the live elements unchanged, and it changes nothing when the
  capacity already equals the length. In particular, after \<open>k\<close> pops (at most as many
  as there are elements) a trim leaves capacity \<open>length - k\<close>.
\<close>

theorem vec_trim_exact:
  assumes "vec_inv (vec w)"
      and "\<And>c. c \<le> vec_len (vec w) \<Longrightarrow> realloc_ok cfg c"
  shows "(\<exists>w'. vec_trim cfg w = Inr w'
           \<and> vec_cap (vec w') = vec_len (vec w')
           \<and> vec_len (vec w') = vec_len (vec w)
           \<and> elems (vec w') = elems (vec w)
           \<and> (vec_cap (vec w) = vec_len (vec w) \<longrightarrow> w' = w))
       \<and> (\<forall>k \<le> unat (vec_len (vec w)).
            \<exists>w'. run permitted cfg w (replicate k Pop @ [Trim]) = Some w'
              \<and> unat (vec_cap (vec w')) = unat (vec_len (vec w)) - k)"
proof (intro conjI allI impI)
  have "realloc_ok cfg (vec_len (vec w))" by (rule assms(2)) simp
  with assms(1) show "\<exists>w'. vec_trim cfg w = Inr w'
           \<and> vec_cap (vec w') = vec_len (vec w')
           \<and> vec_len (vec w') = vec_len (vec w)
           \<and> elems (vec w') = elems (vec w)
           \<and> (vec_cap (vec w) = vec_len (vec w) \<longrightarrow> w' = w)"
    by (rule trim_result)
next
  fix k assume "k \<le> unat (vec_len (vec w))"
  from pops_result [OF assms(1) this, of cfg] obtain w1 where
    r: "run permitted cfg w (replicate k Pop) = Some w1" and inv1: "vec_inv (vec w1)"
    and l: "unat (vec_len (vec w1)) = unat (vec_len (vec w)) - k" by blast
  from l have "vec_len (vec w1) \<le> vec_len (vec w)" by (simp add: word_le_nat_alt)
  then have "realloc_ok cfg (vec_len (vec w1))" by (rule assms(2))
  from trim_result [OF inv1 this] obtain w' where
    "vec_trim cfg w1 = Inr w'" "vec_cap (vec w') = vec_len (vec w')"
    "vec_len (vec w') = vec_len (vec w1)" by blast
  with r l show "\<exists>w'. run permitted cfg w (replicate k Pop @ [Trim]) = Some w'
              \<and> unat (vec_cap (vec w')) = unat (vec_len (vec w)) - k"
    by (simp add: run_append)
qed

theorem vec_trim_exact_witness:
  "(\<exists>w'. vec_trim default_config
            \<lparr>vec = Some \<lparr>len = 3, cap = 4, data = [Some (9::nat), Some 2, Some 3, Some 3]\<rparr>,
             reallocs = 4\<rparr> = Inr w'
      \<and> vec_cap (vec w') = vec_len (vec w')
      \<and> vec_len (vec w') = 3
      \<and> elems (vec w') = [Some 9, Some 2, Some 3])
   \<and> (\<exists>w'. run permitted default_config
            \<lparr>vec = Some \<lparr>len = 3, cap = 4, data = [Some (9::nat), Some 2, Some 3, Some 3]\<rparr>,
             reallocs = 4\<rparr> (replicate 1 Pop @ [Trim]) = Some w'
      \<and> unat (vec_cap (vec w')) = 2)
   \<and> vec_trim default_config
        \<lparr>vec = Some \<lparr>len = 2, cap = 2, data = [Some (9::nat), Some 2]\<rparr>, reallocs = 5\<rparr>
      = Inr \<lparr>vec = Some \<lparr>len = 2, cap = 2, data = [Some (9::nat), Some 2]\<rparr>, reallocs = 5\<rparr>"
proof -
  let ?w = "\<lparr>vec = Some \<lparr>len = 3, cap = 4, data = [Some (9::nat), Some 2, Some 3, Some 3]\<rparr>,
             reallocs = 4\<rparr>"
  let ?u = "\<lparr>vec = Some \<lparr>len = 2, cap = 2, data = [Some (9::nat), Some 2]\<rparr>, reallocs = 5\<rparr>"
  have a: "vec_inv (vec ?w)" by (simp add: vec_inv_def vec_len_def vec_cap_def slots_def)
  have b: "\<And>c. c \<le> vec_len (vec ?w) \<Longrightarrow> realloc_ok default_config c"
    by (simp add: default_config_def)
  have a': "vec_inv (vec ?u)" by (simp add: vec_inv_def vec_len_def vec_cap_def slots_def)
  have b': "\<And>c. c \<le> vec_len (vec ?u) \<Longrightarrow> realloc_ok default_config c"
    by (simp add: default_config_def)
  have c': "vec_cap (vec ?u) = vec_len (vec ?u)" by (simp add: vec_len_def vec_cap_def)
  note t = vec_trim_exact [of ?w default_config, OF a]
  note u = vec_trim_exact [of ?u default_config, OF a', THEN conjunct1]
  from u b' c' have "vec_trim default_config ?u = Inr ?u" by auto
  with t [THEN conjunct1] t [THEN conjunct2, rule_format, of 1] b show ?thesis
    by (simp add: vec_len_def vec_cap_def elems_def slots_def)
qed

subsection \<open>C8: clear, then push\<close>

text \<open>
  C8. Let the buffer be allocated with as many slots as its capacity says. \<open>vec_clear\<close>
  sets the length to 0 and keeps the capacity and the slot contents; any run of at most
  capacity-many pushes after it returns normally without a call of the allocator (so
  \<open>v\<close> is never reassigned), with the capacity unchanged and the pushed values as the
  live elements. As this holds for every such run, it holds after each push of a run.
\<close>

theorem clear_then_push_reuses_capacity:
  assumes "vec w \<noteq> None"
      and "length (slots (vec w)) = unat (vec_cap (vec w))"
      and "length xs \<le> unat (vec_cap (vec w))"
  shows "\<exists>w1 w2. vec_clear w = Inr w1
           \<and> vec_len (vec w1) = 0
           \<and> vec_cap (vec w1) = vec_cap (vec w)
           \<and> slots (vec w1) = slots (vec w)
           \<and> reallocs w1 = reallocs w
           \<and> push_all cfg w1 xs = Inr w2
           \<and> reallocs w2 = reallocs w
           \<and> vec_cap (vec w2) = vec_cap (vec w)
           \<and> unat (vec_len (vec w2)) = length xs
           \<and> elems (vec w2) = map Some xs"
  using assms by (rule clear_push_result)

theorem clear_then_push_reuses_capacity_witness:
  "\<exists>w1 w2. vec_clear \<lparr>vec = Some \<lparr>len = 2, cap = 2, data = [Some (9::nat), Some 2]\<rparr>,
                       reallocs = 5\<rparr> = Inr w1
      \<and> vec_len (vec w1) = 0
      \<and> vec_cap (vec w1) = 2
      \<and> slots (vec w1) = [Some 9, Some 2]
      \<and> reallocs w1 = 5
      \<and> push_all default_config w1 [7, 8] = Inr w2
      \<and> reallocs w2 = 5
      \<and> vec_cap (vec w2) = 2
      \<and> unat (vec_len (vec w2)) = length [7, 8 :: nat]
      \<and> elems (vec w2) = map Some [7, 8]"
proof -
  let ?w = "\<lparr>vec = Some \<lparr>len = 2, cap = 2, data = [Some (9::nat), Some 2]\<rparr>, reallocs = 5\<rparr>"
  have a: "vec ?w \<noteq> None" by simp
  have b: "length (slots (vec ?w)) = unat (vec_cap (vec ?w))"
    by (simp add: slots_def vec_cap_def)
  have c: "length [7, 8 :: nat] \<le> unat (vec_cap (vec ?w))" by (simp add: vec_cap_def)
  from clear_then_push_reuses_capacity [OF a b c, of default_config] show ?thesis
    by (simp add: vec_cap_def slots_def)
qed

subsection \<open>C9: doubling growth\<close>

text \<open>
  C9. Under the doubling rate, let \<open>N \<ge> 1\<close> values (at most \<open>2^63\<close> of them) be pushed
  from \<open>NULL\<close>, the allocator granting every request below \<open>2 * N\<close> slots. Then all
  pushes return normally; the final capacity is \<open>2^k\<close> for the least \<open>k\<close> with
  \<open>N \<le> 2^k\<close>; and the allocator has been called \<open>k + 1\<close> times, which is less than
  \<open>log\<^sub>2 N + 2\<close> (stated as \<open>2 ^ reallocs < 4 * N\<close>).
\<close>

theorem push_all_doubles:
  assumes "VEC_GROW_RATE cfg \<noteq> 1"
      and "xs \<noteq> []"
      and "length xs \<le> 2 ^ 63"
      and "\<And>c. unat c < 2 * length xs \<Longrightarrow> realloc_ok cfg c"
  shows "\<exists>w k. push_all cfg null xs = Inr w
           \<and> unat (vec_len (vec w)) = length xs
           \<and> elems (vec w) = map Some xs
           \<and> unat (vec_cap (vec w)) = 2 ^ k
           \<and> length xs \<le> 2 ^ k
           \<and> (\<forall>j. length xs \<le> 2 ^ j \<longrightarrow> k \<le> j)
           \<and> reallocs w = k + 1
           \<and> 2 ^ reallocs w < 4 * length xs"
proof -
  from assms(2) obtain x ys where xs: "xs = x # ys" by (cases xs) auto
  let ?b1 = "\<lparr>len = 1, cap = 1, data = [Some x]\<rparr>"
  let ?w1 = "\<lparr>vec = Some ?b1, reallocs = reallocs (null :: 'a world) + 1\<rparr>"
  have "realloc_ok cfg 1" using xs by (intro assms(4)) simp
  then have p: "vec_push cfg null x = Inr ?w1"
    by (intro push_null) (simp_all add: null_def)
  have "\<exists>w' b' j. push_all cfg ?w1 ys = Inr w' \<and> vec w' = Some b'
           \<and> unat (len b') = 1 + length ys
           \<and> unat (cap b') = 2 ^ (0 + j)
           \<and> 1 + length ys \<le> 2 ^ (0 + j) \<and> 2 ^ (0 + j) < 2 * (1 + length ys)
           \<and> reallocs w' = reallocs ?w1 + j
           \<and> take (unat (len b')) (data b') = take 1 (data ?b1) @ map Some ys"
    using assms(1,3,4) xs by (intro push_all_doubling) simp_all
  then obtain w' b' k where r:
    "push_all cfg ?w1 ys = Inr w'" "vec w' = Some b'"
    "unat (len b') = length xs" "unat (cap b') = 2 ^ k"
    "length xs \<le> 2 ^ k" "2 ^ k < 2 * length xs"
    "reallocs w' = k + 1"
    "take (unat (len b')) (data b') = map Some xs"
    using xs by (auto simp: null_def)
  have least: "\<forall>j. length xs \<le> 2 ^ j \<longrightarrow> k \<le> j"
  proof (intro allI impI)
    fix j assume "length xs \<le> 2 ^ j"
    with r(6) have "(2::nat) ^ k < 2 ^ Suc j" by simp
    then have "k < Suc j" by (simp only: power_strict_increasing_iff) 
    then show "k \<le> j" by simp
  qed
  from r(6,7) have "2 ^ reallocs w' < 4 * length xs" by simp
  with r least p xs show ?thesis
    by (intro exI [of _ w'] exI [of _ k])
       (simp add: ebind_Inr vec_len_def vec_cap_def elems_Some)
qed

theorem push_all_doubles_witness:
  "\<exists>w k. push_all default_config null [1, 2, 3, 4, 5 :: nat] = Inr w
      \<and> unat (vec_len (vec w)) = length [1, 2, 3, 4, 5 :: nat]
      \<and> elems (vec w) = map Some [1, 2, 3, 4, 5]
      \<and> unat (vec_cap (vec w)) = 2 ^ k
      \<and> length [1, 2, 3, 4, 5 :: nat] \<le> 2 ^ k
      \<and> (\<forall>j. length [1, 2, 3, 4, 5 :: nat] \<le> 2 ^ j \<longrightarrow> k \<le> j)
      \<and> reallocs w = k + 1
      \<and> 2 ^ reallocs w < 4 * length [1, 2, 3, 4, 5 :: nat]"
proof -
  have a: "VEC_GROW_RATE default_config \<noteq> 1" by (simp add: default_config_def)
  have b: "[1, 2, 3, 4, 5 :: nat] \<noteq> []" by simp
  have c: "length [1, 2, 3, 4, 5 :: nat] \<le> 2 ^ 63" by simp
  have d: "\<And>c. unat c < 2 * length [1, 2, 3, 4, 5 :: nat] \<Longrightarrow> realloc_ok default_config c"
    by (simp add: default_config_def)
  show ?thesis by (rule push_all_doubles [OF a b c d])
qed

subsection \<open>C10: insert at the end and push\<close>

text \<open>
  C10. On an allocated, well-formed buffer (capacity below \<open>2^63\<close>, allocator as for C4),
  \<open>vec_ins\<close> at index \<open>length\<close> and \<open>vec_push\<close> both return normally, with the same
  new length and the same live elements.
\<close>

theorem vec_ins_at_end_like_push:
  assumes "vec w \<noteq> None"
      and "vec_inv (vec w)"
      and "unat (vec_cap (vec w)) < 2 ^ 63"
      and "\<And>c. unat c \<le> 2 * unat (vec_cap (vec w)) + 1 \<Longrightarrow> realloc_ok cfg c"
  shows "\<exists>w1 w2. vec_ins cfg w (vec_len (vec w)) x = Inr w1
           \<and> vec_push cfg w x = Inr w2
           \<and> elems (vec w1) = elems (vec w2)
           \<and> vec_len (vec w1) = vec_len (vec w2)
           \<and> unat (vec_len (vec w1)) = unat (vec_len (vec w)) + 1"
proof -
  from assms(2) have l: "length (elems (vec w)) = unat (vec_len (vec w))"
    by (rule length_elems)
  from ins_result [OF assms(2-4), of "vec_len (vec w)" x] obtain w1 where
    "vec_ins cfg w (vec_len (vec w)) x = Inr w1"
    "vec_len (vec w1) = vec_len (vec w) + 1"
    "unat (vec_len (vec w1)) = unat (vec_len (vec w)) + 1"
    "elems (vec w1) = take (unat (vec_len (vec w))) (elems (vec w)) @ [Some x]
        @ drop (unat (vec_len (vec w))) (elems (vec w))"
    by auto
  moreover from push_result [OF assms(2-4), of x] obtain w2 where
    "vec_push cfg w x = Inr w2"
    "vec_len (vec w2) = vec_len (vec w) + 1"
    "elems (vec w2) = elems (vec w) @ [Some x]"
    by auto
  ultimately show ?thesis using l by simp
qed

theorem vec_ins_at_end_like_push_witness:
  "\<exists>w1 w2. vec_ins default_config
              \<lparr>vec = Some \<lparr>len = 1, cap = 4, data = [Some (7::nat), None, None, None]\<rparr>,
               reallocs = 1\<rparr>
              (vec_len (vec \<lparr>vec = Some \<lparr>len = 1, cap = 4,
                                         data = [Some (7::nat), None, None, None]\<rparr>,
                             reallocs = 1\<rparr>)) 9 = Inr w1
      \<and> vec_push default_config
              \<lparr>vec = Some \<lparr>len = 1, cap = 4, data = [Some (7::nat), None, None, None]\<rparr>,
               reallocs = 1\<rparr> 9 = Inr w2
      \<and> elems (vec w1) = elems (vec w2)
      \<and> vec_len (vec w1) = vec_len (vec w2)
      \<and> unat (vec_len (vec w1)) =
          unat (vec_len (vec \<lparr>vec = Some \<lparr>len = 1, cap = 4,
                                         data = [Some (7::nat), None, None, None]\<rparr>,
                             reallocs = 1\<rparr>)) + 1"
proof -
  let ?w = "\<lparr>vec = Some \<lparr>len = 1, cap = 4, data = [Some (7::nat), None, None, None]\<rparr>,
             reallocs = 1\<rparr>"
  have a: "vec ?w \<noteq> None" by simp
  have b: "vec_inv (vec ?w)" by (simp add: vec_inv_def vec_len_def vec_cap_def slots_def)
  have c: "unat (vec_cap (vec ?w)) < 2 ^ 63" by (simp add: vec_cap_def)
  have d: "\<And>c. unat c \<le> 2 * unat (vec_cap (vec ?w)) + 1 \<Longrightarrow> realloc_ok default_config c"
    by (simp add: default_config_def)
  show ?thesis by (rule vec_ins_at_end_like_push [OF a b c d])
qed

end
